theory Spec2Isabelle
  imports Complex_Main "HOL-Library.Code_Target_Nat"
begin

section \<open>Strings and character classes\<close>

text \<open>
  A Python \<open>str\<close> is a sequence of Unicode code points; \<open>len\<close> counts code points.
  The running header of the document contains an en dash (U+2013), which is no 8-bit
  character, so a string is a list of code points here. \<open>u\<close> reads an ASCII literal.
\<close>

type_synonym ustr = "nat list"

definition u :: "string \<Rightarrow> ustr" where
  "u s = map of_char s"

text \<open>
  \<open>\s\<close> in a \<open>str\<close> pattern, \<open>str.isspace\<close>, \<open>str.strip\<close> and \<open>str.split\<close> share one
  whitespace table: the code points below.
\<close>

definition is_space :: "nat \<Rightarrow> bool" where
  "is_space c = ((9 \<le> c \<and> c \<le> 13) \<or> (28 \<le> c \<and> c \<le> 32) \<or> c = 133 \<or> c = 160 \<or> c = 5760 \<or>
     (8192 \<le> c \<and> c \<le> 8202) \<or> c = 8232 \<or> c = 8233 \<or> c = 8239 \<or> c = 8287 \<or> c = 12288)"

text \<open>
  \<open>\d\<close> in a \<open>str\<close> pattern, \<open>str.isdecimal\<close> and the digits \<open>int\<close> accepts are the
  code points of Unicode category Nd. They come in runs, given here by first code
  point and length, and within a run the digits 0 to 9 follow each other, so the
  value of a digit is its offset in its run modulo 10. (The table of Unicode 14.0,
  the one of CPython 3.11.)
\<close>

definition DIGIT_RANGES :: "(nat \<times> nat) list" where
  "DIGIT_RANGES =
     [(48, 10), (1632, 10), (1776, 10), (1984, 10), (2406, 10), (2534, 10), (2662, 10),
      (2790, 10), (2918, 10), (3046, 10), (3174, 10), (3302, 10), (3430, 10), (3558, 10),
      (3664, 10), (3792, 10), (3872, 10), (4160, 10), (4240, 10), (6112, 10), (6160, 10),
      (6470, 10), (6608, 10), (6784, 10), (6800, 10), (6992, 10), (7088, 10), (7232, 10),
      (7248, 10), (42528, 10), (43216, 10), (43264, 10), (43472, 10), (43504, 10),
      (43600, 10), (44016, 10), (65296, 10), (66720, 10), (68912, 10), (69734, 10),
      (69872, 10), (69942, 10), (70096, 10), (70384, 10), (70736, 10), (70864, 10),
      (71248, 10), (71360, 10), (71472, 10), (71904, 10), (72016, 10), (72784, 10),
      (73040, 10), (73120, 10), (92768, 10), (92864, 10), (93008, 10), (120782, 50),
      (123200, 10), (123632, 10), (125264, 10), (130032, 10)]"

definition in_range :: "nat \<Rightarrow> nat \<times> nat \<Rightarrow> bool" where
  "in_range c r = (fst r \<le> c \<and> c < fst r + snd r)"

definition is_digit :: "nat \<Rightarrow> bool" where
  "is_digit c = list_ex (in_range c) DIGIT_RANGES"

definition digit_value :: "nat \<Rightarrow> nat" where
  "digit_value c =
     (case find (in_range c) DIGIT_RANGES of Some r \<Rightarrow> (c - fst r) mod 10 | None \<Rightarrow> 0)"

definition is_upper :: "nat \<Rightarrow> bool" where
  "is_upper c = (65 \<le> c \<and> c \<le> 90)"

section \<open>Regular expressions\<close>

text \<open>
  Every pattern of the program is a sequence of pieces, each a single character class
  with a quantifier, or the end anchor. \<open>Greedy c lo\<close> is \<open>c*\<close> (\<open>lo = 0\<close>) or \<open>c+\<close>
  (\<open>lo = 1\<close>), \<open>Lazy c lo\<close> is \<open>c*?\<close>; \<open>Eos\<close> is \<open>$\<close> without \<open>re.MULTILINE\<close>: the end of
  the string, or just before a newline that ends the string. \<open>Dot\<close> is \<open>.\<close> without
  \<open>re.DOTALL\<close>: anything but a newline.
\<close>

datatype cls = Chr nat | Space | Digit | Upper | Dot

fun in_cls :: "cls \<Rightarrow> nat \<Rightarrow> bool" where
  "in_cls (Chr k) c = (c = k)"
| "in_cls Space c = is_space c"
| "in_cls Digit c = is_digit c"
| "in_cls Upper c = is_upper c"
| "in_cls Dot c = (c \<noteq> 10)"

datatype piece = One cls | Greedy cls nat | Lazy cls nat | Eos

fun first_some :: "('a \<Rightarrow> 'b option) \<Rightarrow> 'a list \<Rightarrow> 'b option" where
  "first_some f [] = None"
| "first_some f (x # xs) = (case f x of Some y \<Rightarrow> Some y | None \<Rightarrow> first_some f xs)"

text \<open>
  \<open>rmatch ps s\<close> is \<open>re.match\<close>: the backtracking match of the pieces at the start of \<open>s\<close>.
  A greedy piece tries the longest run first and gives characters back one at a time,
  a lazy piece tries the shortest first; the first alternative under which the rest of
  the pattern matches is the match. The result lists how many characters each piece
  consumed, from which the groups and \<open>m.end()\<close> are read.
\<close>

primrec rmatch :: "piece list \<Rightarrow> ustr \<Rightarrow> nat list option" where
  "rmatch [] s = Some []"
| "rmatch (p # ps) s =
     (case p of
        One c \<Rightarrow>
          (case s of [] \<Rightarrow> None
           | x # xs \<Rightarrow> if in_cls c x then map_option ((#) 1) (rmatch ps xs) else None)
      | Greedy c lo \<Rightarrow>
          first_some (\<lambda>n. map_option ((#) n) (rmatch ps (drop n s)))
            (rev [lo ..< Suc (length (takeWhile (in_cls c) s))])
      | Lazy c lo \<Rightarrow>
          first_some (\<lambda>n. map_option ((#) n) (rmatch ps (drop n s)))
            [lo ..< Suc (length (takeWhile (in_cls c) s))]
      | Eos \<Rightarrow>
          if s = [] \<or> s = [10] then map_option ((#) 0) (rmatch ps s) else None)"

definition m_end :: "nat list \<Rightarrow> nat" where
  "m_end ns = sum_list ns"

text \<open>The text consumed by piece \<open>k\<close> of a match \<open>ns\<close> of \<open>s\<close> (a group of one piece).\<close>

definition group :: "nat list \<Rightarrow> ustr \<Rightarrow> nat \<Rightarrow> ustr" where
  "group ns s k = take (ns ! k) (drop (sum_list (take k ns)) s)"

text \<open>\<open>re.search\<close>: the first position at which the pattern matches; the rest of the string from there, and the match.\<close>

fun search :: "piece list \<Rightarrow> ustr \<Rightarrow> (ustr \<times> nat list) option" where
  "search ps [] = map_option (Pair []) (rmatch ps [])"
| "search ps (x # xs) =
     (case rmatch ps (x # xs) of Some ns \<Rightarrow> Some (x # xs, ns) | None \<Rightarrow> search ps xs)"

text \<open>
  \<open>pattern.sub(r, s)\<close>: the matches are found left to right, each search starting where
  the last match ended, and replaced by \<open>r\<close>; an empty match is replaced too and the
  character after it is copied.
\<close>

function re_sub :: "piece list \<Rightarrow> ustr \<Rightarrow> ustr \<Rightarrow> ustr" where
  "re_sub ps r [] = (case rmatch ps [] of Some ns \<Rightarrow> r | None \<Rightarrow> [])"
| "re_sub ps r (x # xs) =
     (case rmatch ps (x # xs) of
        None \<Rightarrow> x # re_sub ps r xs
      | Some ns \<Rightarrow>
          if m_end ns = 0 then r @ x # re_sub ps r xs
          else r @ re_sub ps r (drop (m_end ns) (x # xs)))"
  by pat_completeness auto
termination
  by (relation "measure (\<lambda>(ps, r, s). length s)") auto

definition lit :: "ustr \<Rightarrow> piece list" where
  "lit s = map (\<lambda>c. One (Chr c)) s"

section \<open>Patterns of the extractor\<close>

definition PARA_START_RE :: "piece list" where
  "PARA_START_RE = [Greedy Space 0, Greedy Digit 1, One (Chr 46), Greedy Space 1]"

definition SUBSEC_NUMDOT_RE :: "piece list" where
  "SUBSEC_NUMDOT_RE =
     [Greedy Space 0, Greedy Digit 1, One (Chr 46), Greedy Digit 1, Greedy Space 1, Greedy Dot 1, Eos]"

definition SUBSEC_ALPHADOT_RE :: "piece list" where
  "SUBSEC_ALPHADOT_RE =
     [Greedy Space 0, One Upper, One (Chr 46), Greedy Digit 1, Greedy Space 1, Greedy Dot 1, Eos]"

definition SEC_NUM_RE :: "piece list" where
  "SEC_NUM_RE = [Greedy Space 0, Greedy Digit 1, Greedy Space 1, Greedy Dot 1, Eos]"

definition SEC_ALPHA_RE :: "piece list" where
  "SEC_ALPHA_RE = [Greedy Space 0, One Upper, Greedy Space 1, Greedy Dot 1, Eos]"

definition HEADER_TITLE :: ustr where
  "HEADER_TITLE = u ''ECB guide to internal models''"

definition HEADER_STRIP_RE :: "piece list" where
  "HEADER_STRIP_RE = lit HEADER_TITLE @
     [Greedy Space 1, One (Chr 8211), Greedy Space 1, Lazy Dot 0, Greedy Space 1, Greedy Digit 1,
      Greedy Space 0]"

definition HEADER_NUM_RE :: "piece list" where
  "HEADER_NUM_RE = HEADER_STRIP_RE @ [Eos]"

text \<open>The piece of \<open>HEADER_NUM_RE\<close> that is its group 1, the digits.\<close>

definition HEADER_NUM_GROUP :: nat where
  "HEADER_NUM_GROUP = length HEADER_TITLE + 5"

definition TABLE_HEADING_PREFIXES :: "ustr list" where
  "TABLE_HEADING_PREFIXES = [u ''Table '', u ''Relevant regulatory references'']"

section \<open>Helpers\<close>

text \<open>\<open>s.replace("\u00ad", "")\<close>, \<open>s.replace("-\n", "")\<close> and \<open>s.replace("\n", " ")\<close>.\<close>

definition remove_soft_hyphen :: "ustr \<Rightarrow> ustr" where
  "remove_soft_hyphen s = filter (\<lambda>c. c \<noteq> 173) s"

fun remove_hyphen_break :: "ustr \<Rightarrow> ustr" where
  "remove_hyphen_break [] = []"
| "remove_hyphen_break [x] = [x]"
| "remove_hyphen_break (x # y # zs) =
     (if x = 45 \<and> y = 10 then remove_hyphen_break zs else x # remove_hyphen_break (y # zs))"

definition newline_to_space :: "ustr \<Rightarrow> ustr" where
  "newline_to_space s = map (\<lambda>c. if c = 10 then 32 else c) s"

definition strip :: "ustr \<Rightarrow> ustr" where
  "strip s = rev (dropWhile is_space (rev (dropWhile is_space s)))"

definition normalize_text :: "ustr \<Rightarrow> ustr" where
  "normalize_text s =
     strip (re_sub [Greedy Space 1] [32]
       (re_sub HEADER_STRIP_RE [32]
         (newline_to_space (remove_hyphen_break (remove_soft_hyphen s)))))"

text \<open>\<open>" ".join(buf)\<close>.\<close>

fun join_sp :: "ustr list \<Rightarrow> ustr" where
  "join_sp [] = []"
| "join_sp [x] = x"
| "join_sp (x # y # zs) = x @ 32 # join_sp (y # zs)"

text \<open>\<open>txt.split()\<close>: the maximal runs of characters that are not whitespace.\<close>

function split_ws :: "ustr \<Rightarrow> ustr list" where
  "split_ws s =
     (case dropWhile is_space s of
        [] \<Rightarrow> []
      | x # xs \<Rightarrow> takeWhile (\<lambda>c. \<not> is_space c) (x # xs) #
                 split_ws (dropWhile (\<lambda>c. \<not> is_space c) xs))"
  by pat_completeness auto
termination
proof (relation "measure length")
  fix s :: ustr and x xs
  assume "dropWhile is_space s = x # xs"
  then have "length (x # xs) \<le> length s"
    by (metis length_dropWhile_le)
  moreover have "length (dropWhile (\<lambda>c. \<not> is_space c) xs) \<le> length xs"
    by (rule length_dropWhile_le)
  ultimately show "(dropWhile (\<lambda>c. \<not> is_space c) xs, s) \<in> measure length"
    by simp
qed simp

text \<open>
  \<open>txt.lower()\<close> is only ever compared with \<open>"contents"\<close>. The only code points that
  \<open>str.lower\<close> maps to a letter of that word are the ASCII capitals and the letters
  themselves, so the ASCII mapping decides the comparison as Python's does.
\<close>

definition lower :: "ustr \<Rightarrow> ustr" where
  "lower s = map (\<lambda>c. if is_upper c then c + 32 else c) s"

text \<open>\<open>text.startswith(pfx)\<close> and \<open>looks_like_table_heading\<close>.\<close>

definition startswith :: "ustr \<Rightarrow> ustr \<Rightarrow> bool" where
  "startswith s pfx = (take (length pfx) s = pfx)"

definition looks_like_table_heading :: "ustr \<Rightarrow> bool" where
  "looks_like_table_heading txt = list_ex (startswith txt) TABLE_HEADING_PREFIXES"

text \<open>
  \<open>int(m.group(1))\<close>. On a non-empty run of decimal digits, which is all a \<open>\d+\<close> group
  can be, \<open>int\<close> returns the decimal value, unless the run is longer than the
  interpreter's limit on the digits of an integer string, 4300 by default and never
  changed by the program: then it raises \<open>ValueError\<close>, as it does on a string that is
  no number. Leading zeros count towards the limit.
\<close>

datatype error = ValueError

definition INT_MAX_STR_DIGITS :: nat where
  "INT_MAX_STR_DIGITS = 4300"

definition decimal_value :: "ustr \<Rightarrow> int" where
  "decimal_value ds = foldl (\<lambda>a c. 10 * a + int (digit_value c)) 0 ds"

definition py_int :: "ustr \<Rightarrow> error + int" where
  "py_int ds =
     (if ds = [] \<or> \<not> list_all is_digit ds \<or> length ds > INT_MAX_STR_DIGITS then Inl ValueError
      else Inr (decimal_value ds))"

section \<open>Pages and blocks\<close>

text \<open>
  What the layout library returns for a page, as far as the program reads it: the
  blocks in sorted order, each with a type (0 for text) and lines of spans, each span
  with its text and font size.
\<close>

record span =
  sp_text :: ustr
  sp_size :: real

record raw_block =
  rb_type :: int
  rb_lines :: "span list list"

type_synonym page = "raw_block list"

type_synonym document = "page list"

definition raw_text :: "raw_block \<Rightarrow> ustr" where
  "raw_text b = concat (map sp_text (concat (rb_lines b)))"

text \<open>
  \<open>get_printed_page_number\<close>; \<open>page.number\<close> is the physical index of the page. The loop
  over the blocks ends at the first text block in which the header is found, with what
  \<open>int\<close> makes of its digits: a number, or the error that leaves the function.
\<close>

fun header_number :: "raw_block list \<Rightarrow> (error + int) option" where
  "header_number [] = None"
| "header_number (b # bs) =
     (if rb_type b \<noteq> 0 then header_number bs
      else case search HEADER_NUM_RE (raw_text b) of
             Some (rest, ns) \<Rightarrow> Some (py_int (group ns rest HEADER_NUM_GROUP))
           | None \<Rightarrow> header_number bs)"

definition get_printed_page_number :: "nat \<Rightarrow> page \<Rightarrow> error + int" where
  "get_printed_page_number number pg =
     (case header_number pg of Some r \<Rightarrow> r | None \<Rightarrow> Inr (int number + 1))"

record block =
  idx :: nat
  b_text :: ustr
  max_size :: real

definition block_of :: "nat \<times> raw_block \<Rightarrow> block list" where
  "block_of ib =
     (let bi = fst ib; blk = snd ib in
      if rb_type blk \<noteq> 0 then []
      else let txt = normalize_text (raw_text blk) in
        if txt = [] then []
        else let sizes = map sp_size (concat (rb_lines blk));
                 msz = (if sizes = [] then 0 else foldl max (hd sizes) (tl sizes))
             in [\<lparr>idx = bi, b_text = txt, max_size = msz\<rparr>])"

definition collect_blocks :: "page \<Rightarrow> block list" where
  "collect_blocks pg = concat (map block_of (enumerate 0 pg))"

section \<open>Core extraction\<close>

record para =
  r_title :: ustr
  r_section :: ustr
  r_subsection :: ustr
  r_paragraph_number :: ustr
  r_page :: int
  r_text :: ustr

text \<open>The local variables of \<open>extract_json\<close> that its loops and \<open>flush\<close> update.\<close>

record state =
  results :: "para list"
  cur_title :: "ustr option"
  cur_section :: ustr
  cur_subsection :: ustr
  cur_chapter_id :: "ustr option"
  cur_para :: "para option"
  buf :: "ustr list"

definition NA :: ustr where
  "NA = u ''N/A''"

text \<open>\<open>x or "N/A"\<close> for an optional string and for a string: \<open>None\<close> and \<open>""\<close> are falsy.\<close>

definition opt_or :: "ustr option \<Rightarrow> ustr \<Rightarrow> ustr" where
  "opt_or x d = (case x of None \<Rightarrow> d | Some s \<Rightarrow> if s = [] then d else s)"

definition str_or :: "ustr \<Rightarrow> ustr \<Rightarrow> ustr" where
  "str_or s d = (if s = [] then d else s)"

definition init_state :: state where
  "init_state = \<lparr>results = [], cur_title = None, cur_section = NA, cur_subsection = NA,
     cur_chapter_id = None, cur_para = None, buf = []\<rparr>"

definition flush :: "state \<Rightarrow> state" where
  "flush st =
     (case cur_para st of
        None \<Rightarrow> st\<lparr>cur_para := None, buf := []\<rparr>
      | Some p \<Rightarrow>
          (let t = normalize_text (join_sp (buf st)) in
           if t \<noteq> [] then st\<lparr>results := results st @ [p\<lparr>r_text := t\<rparr>], cur_para := None, buf := []\<rparr>
           else st\<lparr>cur_para := None, buf := []\<rparr>))"

text \<open>
  \<open>printed_to_index\<close>: one assignment per physical page, in the order of the pages. An
  error of the resolver leaves the loop, and \<open>extract_json\<close> with it.
\<close>

fun index_pages :: "(nat \<times> page) list \<Rightarrow> (int \<rightharpoonup> nat) \<Rightarrow> error + (int \<rightharpoonup> nat)" where
  "index_pages [] m = Inr m"
| "index_pages (ip # rest) m =
     (case get_printed_page_number (fst ip) (snd ip) of
        Inl err \<Rightarrow> Inl err
      | Inr n \<Rightarrow> index_pages rest (m(n \<mapsto> fst ip)))"

definition printed_to_index :: "document \<Rightarrow> error + (int \<rightharpoonup> nat)" where
  "printed_to_index doc = index_pages (enumerate 0 doc) Map.empty"

subsection \<open>The single pass in reading order\<close>

text \<open>
  The four heading patterns in the order the loop tries them. They all have the same
  effect but for the chapter id, group 1 of the pattern that matched, which is what
  \<open>heading_match\<close> returns. The two section patterns also need more than two words.
\<close>

definition heading_match :: "ustr \<Rightarrow> ustr option" where
  "heading_match txt =
     (case rmatch SUBSEC_NUMDOT_RE txt of
        Some ns \<Rightarrow> Some (group ns txt 1)
      | None \<Rightarrow>
     (case rmatch SUBSEC_ALPHADOT_RE txt of
        Some ns \<Rightarrow> Some (group ns txt 1)
      | None \<Rightarrow>
     (case (case rmatch SEC_NUM_RE txt of
              Some ns \<Rightarrow> if length (split_ws txt) > 2 then Some (group ns txt 1) else None
            | None \<Rightarrow> None) of
        Some c \<Rightarrow> Some c
      | None \<Rightarrow>
     (case rmatch SEC_ALPHA_RE txt of
        Some ns \<Rightarrow> if length (split_ws txt) > 2 then Some (group ns txt 1) else None
      | None \<Rightarrow> None))))"

definition is_title :: "block \<Rightarrow> bool" where
  "is_title b = (max_size b \<ge> 18 \<and> length (b_text b) < 200 \<and> lower (b_text b) \<noteq> u ''contents'')"

definition set_title :: "ustr \<Rightarrow> state \<Rightarrow> state" where
  "set_title txt st =
     st\<lparr>cur_title := Some txt, cur_section := NA, cur_subsection := NA, cur_chapter_id := None\<rparr>"

definition set_heading :: "ustr \<Rightarrow> ustr \<Rightarrow> state \<Rightarrow> state" where
  "set_heading cid txt st =
     st\<lparr>cur_chapter_id := Some cid, cur_section := opt_or (cur_title st) NA, cur_subsection := txt\<rparr>"

text \<open>The numbered-paragraph branch and its \<open>else\<close>, shared by the variants.\<close>

definition open_para :: "int \<Rightarrow> ustr \<Rightarrow> nat list \<Rightarrow> state \<Rightarrow> state" where
  "open_para printed txt ns st =
     (let st1 = flush st;
          p = \<lparr>r_title = opt_or (cur_title st1) NA,
               r_section = str_or (cur_section st1) NA,
               r_subsection = str_or (cur_subsection st1) NA,
               r_paragraph_number = group ns txt 1,
               r_page = printed,
               r_text = []\<rparr>;
          rest = strip (drop (m_end ns) txt)
      in st1\<lparr>cur_para := Some p, buf := (if rest \<noteq> [] then buf st1 @ [rest] else buf st1)\<rparr>)"

definition para_or_continuation :: "int \<Rightarrow> ustr \<Rightarrow> state \<Rightarrow> state" where
  "para_or_continuation printed txt st =
     (case rmatch PARA_START_RE txt of
        Some ns \<Rightarrow> open_para printed txt ns st
      | None \<Rightarrow> if cur_para st \<noteq> None then st\<lparr>buf := buf st @ [txt]\<rparr> else st)"

text \<open>The body of the loop over the blocks of a page, for one block.\<close>

definition process_block :: "int \<Rightarrow> state \<Rightarrow> block \<Rightarrow> state" where
  "process_block printed st b =
     (let txt = b_text b; sz = max_size b in
      if is_title b then set_title txt st
      else case (if sz \<ge> 12.5 then heading_match txt else None) of
        Some cid \<Rightarrow> set_heading cid txt st
      | None \<Rightarrow>
          if sz < 8.5 \<or> looks_like_table_heading txt then st
          else para_or_continuation printed txt st)"

definition process_page :: "document \<Rightarrow> (int \<rightharpoonup> nat) \<Rightarrow> (int \<Rightarrow> state \<Rightarrow> block list \<Rightarrow> state)
    \<Rightarrow> state \<Rightarrow> int \<Rightarrow> state" where
  "process_page doc index body st printed =
     (case index printed of
        None \<Rightarrow> st
      | Some i \<Rightarrow> body printed st (collect_blocks (doc ! i)))"

text \<open>
  \<open>extract_json\<close> of \<open>json_parserv3.py\<close>: the list it returns (and dumps as JSON), or
  the error raised while the page index is built, before any block is processed.
  \<open>range(start, end + 1)\<close> is \<open>[start..end]\<close>. An index stored in \<open>printed_to_index\<close>
  is the index of a page of the document, so \<open>doc ! i\<close> is that page.
\<close>

definition extract_json :: "document \<Rightarrow> int \<Rightarrow> int \<Rightarrow> error + para list" where
  "extract_json doc start_printed_page end_printed_page =
     (case printed_to_index doc of
        Inl err \<Rightarrow> Inl err
      | Inr index \<Rightarrow>
          Inr (results (flush (foldl
            (process_page doc index (\<lambda>printed. foldl (process_block printed)))
            init_state [start_printed_page .. end_printed_page]))))"

subsection \<open>The earlier variant in three passes (\<open>json_parserv2.py\<close>)\<close>

definition pass_a :: "state \<Rightarrow> block \<Rightarrow> state" where
  "pass_a st b = (if is_title b then set_title (b_text b) st else st)"

text \<open>
  Pass B sets the section to the chapter id and the title when there is a title, and
  to the chapter id alone otherwise (a chapter id is never empty); its section
  patterns do not ask for more than two words.
\<close>

definition heading_match_v2 :: "ustr \<Rightarrow> ustr option" where
  "heading_match_v2 txt =
     (case rmatch SUBSEC_NUMDOT_RE txt of
        Some ns \<Rightarrow> Some (group ns txt 1)
      | None \<Rightarrow>
     (case rmatch SUBSEC_ALPHADOT_RE txt of
        Some ns \<Rightarrow> Some (group ns txt 1)
      | None \<Rightarrow>
     (case rmatch SEC_NUM_RE txt of
        Some ns \<Rightarrow> Some (group ns txt 1)
      | None \<Rightarrow>
     (case rmatch SEC_ALPHA_RE txt of
        Some ns \<Rightarrow> Some (group ns txt 1)
      | None \<Rightarrow> None))))"

definition set_heading_v2 :: "ustr \<Rightarrow> ustr \<Rightarrow> state \<Rightarrow> state" where
  "set_heading_v2 cid txt st =
     st\<lparr>cur_chapter_id := Some cid,
        cur_section := (case cur_title st of
                          None \<Rightarrow> str_or cid NA
                        | Some t \<Rightarrow> if t = [] then str_or cid NA else cid @ 32 # t),
        cur_subsection := txt\<rparr>"

definition pass_b :: "state \<Rightarrow> block \<Rightarrow> state" where
  "pass_b st b =
     (if max_size b < 12.5 then st
      else case heading_match_v2 (b_text b) of
        Some cid \<Rightarrow> set_heading_v2 cid (b_text b) st
      | None \<Rightarrow> st)"

definition pass_c :: "int \<Rightarrow> state \<Rightarrow> block \<Rightarrow> state" where
  "pass_c printed st b =
     (if max_size b < 8.5 then st
      else if (max_size b \<ge> 12.5 \<and> heading_match_v2 (b_text b) \<noteq> None)
              \<or> looks_like_table_heading (b_text b) then st
      else para_or_continuation printed (b_text b) st)"

definition extract_json_v2 :: "document \<Rightarrow> int \<Rightarrow> int \<Rightarrow> error + para list" where
  "extract_json_v2 doc start_printed_page end_printed_page =
     (case printed_to_index doc of
        Inl err \<Rightarrow> Inl err
      | Inr index \<Rightarrow>
          Inr (results (flush (foldl
            (process_page doc index
               (\<lambda>printed st blocks.
                  foldl (pass_c printed) (foldl pass_b (foldl pass_a st blocks) blocks) blocks))
            init_state [start_printed_page .. end_printed_page]))))"

section \<open>Documents used in the statements\<close>

text \<open>A text block of one line and one span.\<close>

definition ustr_block :: "ustr \<Rightarrow> real \<Rightarrow> raw_block" where
  "ustr_block s sz = \<lparr>rb_type = 0, rb_lines = [[\<lparr>sp_text = s, sp_size = sz\<rparr>]]\<rparr>"

definition text_block :: "string \<Rightarrow> real \<Rightarrow> raw_block" where
  "text_block s sz = ustr_block (u s) sz"

definition two_page_doc :: document where
  "two_page_doc =
     [[text_block ''Overarching principles'' 20, text_block ''1.2 Scope'' 14,
       text_block ''1. This guide applies to...'' 11],
      [text_block ''to all significant institutions.'' 11, text_block ''2. Further, ...'' 11]]"

definition stray_after_heading_doc :: document where
  "stray_after_heading_doc =
     [[text_block ''1.1 Scope'' 14, text_block ''1. First'' 11,
       text_block ''1.2 Purpose'' 14, text_block ''stray text'' 11]]"

definition para_before_heading_doc :: document where
  "para_before_heading_doc = [[text_block ''1. First'' 11, text_block ''1.2 Scope'' 14]]"

definition hyphen_break_input :: ustr where
  "hyphen_break_input = u ''model-'' @ [10] @ u ''based''"

definition wide_header_input :: ustr where
  "wide_header_input = u ''ECB  guide to internal models '' @ [8211] @ u '' a 1''"

definition footnote_doc :: document where
  "footnote_doc =
     [[text_block ''1. First'' 11, text_block ''more'' 11, text_block ''see note 3'' 7,
       text_block ''rest'' 11]]"

definition header_text :: "ustr \<Rightarrow> ustr" where
  "header_text s = u ''ECB guide to internal models '' @ [8211] @ s"





definition shadow_doc :: document where
  "shadow_doc =
     [[ustr_block (header_text (u '' Foreword 2'')) 9, text_block ''1. Lost'' 11],
      [text_block ''1. Kept'' 11]]"

definition other_page :: page where
  "other_page = [ustr_block (header_text (u '' Foreword 2'')) 9, text_block ''1. Other'' 11]"

definition in_flight_state :: state where
  "in_flight_state =
     \<lparr>results = [], cur_title = Some (u ''Old title''), cur_section = u ''Old title'',
      cur_subsection = u ''1.1 Old'', cur_chapter_id = Some (u ''1''),
      cur_para = Some \<lparr>r_title = u ''Old title'', r_section = u ''Old title'',
        r_subsection = u ''1.1 Old'', r_paragraph_number = u ''4'', r_page = 5, r_text = []\<rparr>,
      buf = [u ''begun'']\<rparr>"

definition title_block :: block where
  "title_block = \<lparr>idx = 0, b_text = u ''Foreword'', max_size = 20\<rparr>"

definition body_block :: block where
  "body_block = \<lparr>idx = 1, b_text = u ''and continued'', max_size = 11\<rparr>"

definition footnote_block :: block where
  "footnote_block = \<lparr>idx = 2, b_text = u ''see note 3'', max_size = 7\<rparr>"

definition label_block :: block where
  "label_block = \<lparr>idx = 0, b_text = u ''1.2 Scope'', max_size = 11\<rparr>"

section \<open>Notions used in the statements\<close>

text \<open>
  The blocks the driving loop processes, in order, each with the printed page it is
  processed under; and the state after the loop body has run over such a list.
\<close>

definition blocks_in_range :: "document \<Rightarrow> (int \<rightharpoonup> nat) \<Rightarrow> int \<Rightarrow> int \<Rightarrow> (int \<times> block) list" where
  "blocks_in_range doc index s e =
     concat (map (\<lambda>printed. case index printed of
                     None \<Rightarrow> []
                   | Some i \<Rightarrow> map (Pair printed) (collect_blocks (doc ! i))) [s .. e])"

definition processed_blocks :: "document \<Rightarrow> int \<Rightarrow> int \<Rightarrow> error + (int \<times> block) list" where
  "processed_blocks doc s e =
     (case printed_to_index doc of
        Inl err \<Rightarrow> Inl err
      | Inr index \<Rightarrow> Inr (blocks_in_range doc index s e))"

definition run :: "state \<Rightarrow> (int \<times> block) list \<Rightarrow> state" where
  "run st pbs = foldl (\<lambda>st pb. process_block (fst pb) st (snd pb)) st pbs"

text \<open>A block on which one of the four heading rules of the single pass fires.\<close>

definition is_heading :: "block \<Rightarrow> bool" where
  "is_heading b = (\<not> is_title b \<and> max_size b \<ge> 12.5 \<and> heading_match (b_text b) \<noteq> None)"



text \<open>Page \<open>i\<close> is the last physical page whose printed number is \<open>n\<close>.\<close>

definition last_page_with :: "document \<Rightarrow> int \<Rightarrow> nat \<Rightarrow> bool" where
  "last_page_with doc n i =
     (i < length doc \<and> get_printed_page_number i (doc ! i) = Inr n \<and>
      (\<forall>j. i < j \<and> j < length doc \<longrightarrow> get_printed_page_number j (doc ! j) \<noteq> Inr n))"


text \<open>
  The shape of a string whose whitespace is collapsed: every whitespace character
  is a space and is not followed by another one.
\<close>

fun ok_ws :: "ustr \<Rightarrow> bool" where
  "ok_ws [] = True"
| "ok_ws [x] = (if is_space x then x = 32 else True)"
| "ok_ws (x # y # zs) = ((if is_space x then x = 32 \<and> \<not> is_space y else True) \<and> ok_ws (y # zs))"

section \<open>Facts about the matcher\<close>


lemma first_some_None: "(\<And>x. x \<in> set xs \<Longrightarrow> f x = None) \<Longrightarrow> first_some f xs = None"
  by (induction xs) auto

lemma digit_not_space: "is_digit c \<Longrightarrow> \<not> is_space c"
  by (auto simp: is_digit_def is_space_def DIGIT_RANGES_def in_range_def)

lemma not_digit: "\<not> is_digit 10" "\<not> is_digit 46" "\<not> is_digit 82" "\<not> is_digit 84"
  by code_simp+


lemma rmatch_Greedy0_skip:
  "takeWhile (in_cls c) s = [] \<Longrightarrow> rmatch (Greedy c 0 # ps) s = map_option ((#) 0) (rmatch ps s)"
  by (simp split: option.splits)

lemma rmatch_Greedy_None:
  assumes "\<And>n. lo \<le> n \<Longrightarrow> n \<le> length (takeWhile (in_cls c) s) \<Longrightarrow> rmatch ps (drop n s) = None"
  shows "rmatch (Greedy c lo # ps) s = None"
proof -
  have "first_some (\<lambda>n. map_option ((#) n) (rmatch ps (drop n s)))
          (rev [lo ..< Suc (length (takeWhile (in_cls c) s))]) = None"
    by (rule first_some_None) (use assms in auto)
  then show ?thesis by simp
qed

lemma rmatch_One:
  "rmatch (One c # ps) (x # xs) = (if in_cls c x then map_option ((#) 1) (rmatch ps xs) else None)"
  by simp

lemma para_start_dotted_label:
  assumes ds: "ds \<noteq> []" "list_all is_digit ds" and d: "is_digit d"
  shows "rmatch PARA_START_RE (ds @ 46 # d # rest) = None"
proof -
  let ?s = "ds @ 46 # d # rest"
  obtain x xs where dsx: "ds = x # xs" using ds(1) by (cases ds) auto
  have sp: "takeWhile (in_cls Space) ?s = []"
    using ds(2) dsx by (simp add: digit_not_space)
  have dg: "takeWhile (in_cls Digit) ?s = ds"
    using ds(2) by (simp add: takeWhile_append2 list_all_iff not_digit)
  have after_dot: "rmatch [Greedy Space 1] (d # rest) = None"
    by (rule rmatch_Greedy_None) (use d in \<open>simp add: digit_not_space\<close>)
  have tail: "rmatch [One (Chr 46), Greedy Space 1] (drop n ?s) = None"
    if n: "1 \<le> n" "n \<le> length ds" for n
  proof (cases "n = length ds")
    case True
    then have e: "drop n ?s = 46 # d # rest" by simp
    show ?thesis unfolding e rmatch_One after_dot by simp
  next
    case False
    with n have lt: "n < length ds" by auto
    then obtain y ys where dr: "drop n ds = y # ys"
      by (cases "drop n ds") auto
    then have "y \<in> set ds" by (metis in_set_dropD list.set_intros(1))
    then have "y \<noteq> 46" using ds(2) not_digit(2) by (auto simp: list_all_iff)
    moreover have e: "drop n ?s = y # ys @ 46 # d # rest" using lt dr by simp
    ultimately show ?thesis unfolding e rmatch_One by simp
  qed
  have "rmatch [Greedy Digit 1, One (Chr 46), Greedy Space 1] ?s = None"
    by (rule rmatch_Greedy_None) (simp only: dg tail)
  then show ?thesis
    unfolding PARA_START_RE_def by (simp only: rmatch_Greedy0_skip[OF sp] option.map)
qed





















section \<open>Facts about the classifier\<close>

lemma flush_context:
  "cur_title (flush st) = cur_title st" "cur_section (flush st) = cur_section st"
  "cur_subsection (flush st) = cur_subsection st" "cur_chapter_id (flush st) = cur_chapter_id st"
  by (simp_all add: flush_def Let_def split: option.splits)

lemma para_or_continuation_context:
  "cur_title (para_or_continuation p txt st) = cur_title st"
  "cur_section (para_or_continuation p txt st) = cur_section st"
  "cur_subsection (para_or_continuation p txt st) = cur_subsection st"
  "cur_chapter_id (para_or_continuation p txt st) = cur_chapter_id st"
  by (simp_all add: para_or_continuation_def open_para_def Let_def flush_context split: option.splits)

lemma title_step:
  "is_title b \<Longrightarrow> process_block p st b =
     st\<lparr>cur_title := Some (b_text b), cur_section := NA, cur_subsection := NA, cur_chapter_id := None\<rparr>"
  by (simp add: process_block_def set_title_def)

lemma no_heading_step:
  assumes "\<not> is_heading b" "cur_section st = NA" "cur_subsection st = NA"
  shows "cur_section (process_block p st b) = NA \<and> cur_subsection (process_block p st b) = NA"
  using assms
  by (auto simp: process_block_def is_heading_def set_title_def Let_def para_or_continuation_context
           split: option.splits if_splits)

lemma no_heading_run:
  "list_all (\<lambda>pb. \<not> is_heading (snd pb)) pbs \<Longrightarrow> cur_section st = NA \<Longrightarrow> cur_subsection st = NA \<Longrightarrow>
   cur_section (run st pbs) = NA \<and> cur_subsection (run st pbs) = NA"
proof (induction pbs arbitrary: st)
  case Nil
  then show ?case by (simp add: run_def)
next
  case (Cons pb pbs)
  have "cur_section (process_block (fst pb) st (snd pb)) = NA \<and>
        cur_subsection (process_block (fst pb) st (snd pb)) = NA"
    using Cons.prems by (intro no_heading_step) simp_all
  with Cons.IH[of "process_block (fst pb) st (snd pb)"] Cons.prems(1)
  show ?case by (simp add: run_def)
qed

lemma footnote_step: "max_size b < 8.5 \<Longrightarrow> process_block p st b = st"
  by (simp add: process_block_def is_title_def)

lemma run_append: "run st (xs @ ys) = run (run st xs) ys"
  by (simp add: run_def)

lemma extract_json_run:
  "extract_json doc s e =
     (case processed_blocks doc s e of
        Inl err \<Rightarrow> Inl err
      | Inr pbs \<Rightarrow> Inr (results (flush (run init_state pbs))))"
proof -
  have "foldl (process_page doc ix (\<lambda>printed. foldl (process_block printed))) st ps =
        run st (concat (map (\<lambda>printed. case ix printed of None \<Rightarrow> []
              | Some i \<Rightarrow> map (Pair printed) (collect_blocks (doc ! i))) ps))" for ix st ps
  proof (induction ps arbitrary: st)
    case Nil
    then show ?case by (simp add: run_def)
  next
    case (Cons q ps)
    have blk: "foldl (process_block q) st bs = run st (map (Pair q) bs)" for bs
      by (induction bs arbitrary: st) (simp_all add: run_def)
    have page: "process_page doc ix (\<lambda>printed. foldl (process_block printed)) st q =
        run st (case ix q of None \<Rightarrow> [] | Some i \<Rightarrow> map (Pair q) (collect_blocks (doc ! i)))"
      by (simp add: process_page_def blk split: option.splits) (simp add: run_def)
    show ?case
      by (simp add: Cons.IH page run_append)
  qed
  then show ?thesis
    by (simp add: extract_json_def processed_blocks_def blocks_in_range_def split: sum.splits)
qed

section \<open>Facts about the page index\<close>

lemma index_pages_snoc:
  "index_pages (xs @ [(i, pg)]) m =
     (case index_pages xs m of
        Inl err \<Rightarrow> Inl err
      | Inr m' \<Rightarrow>
          (case get_printed_page_number i pg of
             Inl err \<Rightarrow> Inl err
           | Inr n \<Rightarrow> Inr (m'(n \<mapsto> i))))"
  by (induction xs arbitrary: m) (simp_all split: sum.splits)

lemma printed_to_index_snoc:
  "printed_to_index (doc @ [pg]) =
     (case printed_to_index doc of
        Inl err \<Rightarrow> Inl err
      | Inr m \<Rightarrow>
          (case get_printed_page_number (length doc) pg of
             Inl err \<Rightarrow> Inl err
           | Inr n \<Rightarrow> Inr (m(n \<mapsto> length doc))))"
  by (simp add: printed_to_index_def enumerate_append_eq index_pages_snoc)

lemma printed_to_index_snocD:
  assumes "printed_to_index (doc @ [pg]) = Inr ix"
  obtains m k where "printed_to_index doc = Inr m"
    and "get_printed_page_number (length doc) pg = Inr k" and "ix = m(k \<mapsto> length doc)"
  using assms unfolding printed_to_index_snoc by (auto split: sum.splits)

lemma last_page_with_snoc:
  "last_page_with (doc @ [pg]) n i =
     (if get_printed_page_number (length doc) pg = Inr n then i = length doc
      else last_page_with doc n i)"
proof (cases "get_printed_page_number (length doc) pg = Inr n")
  case True
  show ?thesis
  proof (cases "i = length doc")
    case eq: True
    then show ?thesis using True by (auto simp: last_page_with_def)
  next
    case False
    have "\<not> last_page_with (doc @ [pg]) n i"
    proof
      assume a: "last_page_with (doc @ [pg]) n i"
      then have "i < length doc" using False by (simp add: last_page_with_def)
      moreover from a have "\<forall>j. i < j \<and> j < Suc (length doc) \<longrightarrow>
          get_printed_page_number j ((doc @ [pg]) ! j) \<noteq> Inr n"
        by (simp add: last_page_with_def)
      ultimately have "get_printed_page_number (length doc) ((doc @ [pg]) ! length doc) \<noteq> Inr n"
        by blast
      then show False using True by simp
    qed
    then show ?thesis using True False by simp
  qed
next
  case False
  have "last_page_with (doc @ [pg]) n i = last_page_with doc n i"
  proof
    assume a: "last_page_with (doc @ [pg]) n i"
    then have i: "i < Suc (length doc)" and g: "get_printed_page_number i ((doc @ [pg]) ! i) = Inr n"
      and l: "\<And>j. i < j \<Longrightarrow> j < Suc (length doc) \<Longrightarrow> get_printed_page_number j ((doc @ [pg]) ! j) \<noteq> Inr n"
      by (simp_all add: last_page_with_def)
    have "i \<noteq> length doc" using g False by auto
    with i have i': "i < length doc" by simp
    have "get_printed_page_number j (doc ! j) \<noteq> Inr n" if "i < j" "j < length doc" for j
      using l[of j] that by (simp add: nth_append)
    then show "last_page_with doc n i"
      using i' g by (simp add: last_page_with_def nth_append)
  next
    assume a: "last_page_with doc n i"
    then have i: "i < length doc" and g: "get_printed_page_number i (doc ! i) = Inr n"
      and l: "\<And>j. i < j \<Longrightarrow> j < length doc \<Longrightarrow> get_printed_page_number j (doc ! j) \<noteq> Inr n"
      by (simp_all add: last_page_with_def)
    have "get_printed_page_number j ((doc @ [pg]) ! j) \<noteq> Inr n" if "i < j" "j < Suc (length doc)" for j
    proof (cases "j = length doc")
      case True
      then show ?thesis using False by simp
    next
      case ne: False
      with that have "j < length doc" by simp
      then show ?thesis using l[of j] that by (simp add: nth_append)
    qed
    then show "last_page_with (doc @ [pg]) n i"
      using i g by (simp add: last_page_with_def nth_append)
  qed
  then show ?thesis using False by simp
qed

lemma printed_to_index_last:
  "printed_to_index doc = Inr ix \<Longrightarrow> ix n = Some i \<longleftrightarrow> last_page_with doc n i"
proof (induction doc arbitrary: ix rule: rev_induct)
  case Nil
  then show ?case by (auto simp: printed_to_index_def last_page_with_def)
next
  case (snoc pg doc)
  from snoc.prems obtain m k where m: "printed_to_index doc = Inr m"
    and k: "get_printed_page_number (length doc) pg = Inr k" and ix: "ix = m(k \<mapsto> length doc)"
    by (rule printed_to_index_snocD)
  show ?case
    unfolding last_page_with_snoc ix k using snoc.IH[OF m] by auto
qed

lemma printed_to_index_dom:
  "printed_to_index doc = Inr ix \<Longrightarrow> i < length doc \<Longrightarrow>
   \<exists>n k. get_printed_page_number i (doc ! i) = Inr n \<and> ix n = Some k \<and> i \<le> k"
proof (induction doc arbitrary: ix rule: rev_induct)
  case Nil
  then show ?case by simp
next
  case (snoc pg doc)
  from snoc.prems(1) obtain m k where m: "printed_to_index doc = Inr m"
    and k: "get_printed_page_number (length doc) pg = Inr k" and ix: "ix = m(k \<mapsto> length doc)"
    by (rule printed_to_index_snocD)
  show ?case
  proof (cases "i = length doc")
    case True
    then show ?thesis using k ix by simp
  next
    case False
    with snoc.prems(2) have i: "i < length doc" by simp
    from snoc.IH[OF m i] obtain n j where
      n: "get_printed_page_number i (doc ! i) = Inr n" "m n = Some j" "i \<le> j" by blast
    show ?thesis
    proof (cases "k = n")
      case True
      then show ?thesis using n(1) i ix by (auto simp: nth_append)
    next
      case ne: False
      then have "ix n = Some j" using n(2) ix by simp
      then show ?thesis using n(1,3) i by (auto simp: nth_append)
    qed
  qed
qed

lemma index_pages_cong:
  "list_all2 (\<lambda>a b. fst a = fst b \<and>
       get_printed_page_number (fst a) (snd a) = get_printed_page_number (fst b) (snd b)) xs ys \<Longrightarrow>
   index_pages xs m = index_pages ys m"
proof (induction xs ys arbitrary: m rule: list_all2_induct)
  case Nil
  then show ?case by simp
next
  case (Cons x xs y ys)
  from Cons(1) have fx: "fst x = fst y" by (rule conjunct1)
  from Cons(1)
  have g: "get_printed_page_number (fst x) (snd x) = get_printed_page_number (fst y) (snd y)"
    by (rule conjunct2)
  show ?case
  proof (cases "get_printed_page_number (fst y) (snd y)")
    case (Inl err)
    with g have "get_printed_page_number (fst x) (snd x) = Inl err" by simp
    then show ?thesis using Inl by simp
  next
    case (Inr n)
    with g have "get_printed_page_number (fst x) (snd x) = Inr n" by simp
    then have "index_pages (x # xs) m = index_pages xs (m(n \<mapsto> fst x))" by simp
    also have "\<dots> = index_pages ys (m(n \<mapsto> fst x))" by (rule Cons(3))
    also have "\<dots> = index_pages (y # ys) m" using Inr fx by simp
    finally show ?thesis .
  qed
qed

lemma printed_to_index_update:
  assumes "i < length doc" "get_printed_page_number i pg' = get_printed_page_number i (doc ! i)"
  shows "printed_to_index (doc[i := pg']) = printed_to_index doc"
proof -
  have "get_printed_page_number k (doc[i := pg'] ! k) = get_printed_page_number k (doc ! k)"
    if "k < length doc" for k
    using that assms by (cases "k = i") simp_all
  then have "list_all2 (\<lambda>a b. fst a = fst b \<and>
       get_printed_page_number (fst a) (snd a) = get_printed_page_number (fst b) (snd b))
     (enumerate 0 (doc[i := pg'])) (enumerate 0 doc)"
    by (simp add: list_all2_conv_all_nth nth_enumerate_eq)
  then show ?thesis unfolding printed_to_index_def by (rule index_pages_cong)
qed

lemma shadowed_page_not_indexed:
  assumes "printed_to_index doc = Inr ix" and "i < j" "j < length doc"
    "get_printed_page_number i (doc ! i) = get_printed_page_number j (doc ! j)"
  shows "ix n \<noteq> Some i"
proof
  assume "ix n = Some i"
  then have l: "last_page_with doc n i" using printed_to_index_last[OF assms(1)] by simp
  then have "get_printed_page_number i (doc ! i) = Inr n" by (simp add: last_page_with_def)
  moreover from l have "get_printed_page_number j (doc ! j) \<noteq> Inr n"
    using assms(2,3) by (simp add: last_page_with_def)
  ultimately show False using assms(4) by simp
qed

lemma shadowed_page_ignored:
  assumes "i < j" "j < length doc"
    "get_printed_page_number i (doc ! i) = get_printed_page_number j (doc ! j)"
    "get_printed_page_number i pg' = get_printed_page_number i (doc ! i)"
  shows "extract_json (doc[i := pg']) s e = extract_json doc s e"
proof -
  have i: "i < length doc" using assms(1,2) by simp
  have ix: "printed_to_index (doc[i := pg']) = printed_to_index doc"
    by (rule printed_to_index_update[OF i assms(4)])
  have "processed_blocks (doc[i := pg']) s e = processed_blocks doc s e"
  proof (cases "printed_to_index doc")
    case (Inl err)
    then show ?thesis by (simp add: processed_blocks_def ix)
  next
    case (Inr index)
    have "(case index n of None \<Rightarrow> []
            | Some k \<Rightarrow> map (Pair n) (collect_blocks (doc[i := pg'] ! k))) =
          (case index n of None \<Rightarrow> []
            | Some k \<Rightarrow> map (Pair n) (collect_blocks (doc ! k)))" for n
    proof (cases "index n")
      case None
      then show ?thesis by simp
    next
      case (Some k)
      then have "k \<noteq> i" using shadowed_page_not_indexed[OF Inr assms(1,2,3), of n] by auto
      then show ?thesis using Some by simp
    qed
    then have "blocks_in_range (doc[i := pg']) index s e = blocks_in_range doc index s e"
      by (simp only: blocks_in_range_def)
    then show ?thesis by (simp add: processed_blocks_def ix Inr)
  qed
  then show ?thesis by (simp only: extract_json_run)
qed

section \<open>Facts about the normalizer\<close>

lemma search_None_sub: "search ps s = None \<Longrightarrow> re_sub ps r s = s"
  by (induction s) (auto split: option.splits)

lemma in_cls_Space: "in_cls Space = is_space"
  by (rule ext) simp

lemma rmatch_spaces:
  "rmatch [Greedy Space 1] s =
     (if takeWhile is_space s = [] then None else Some [length (takeWhile is_space s)])"
proof (cases "takeWhile is_space s = []")
  case True
  then show ?thesis by (simp add: in_cls_Space)
next
  case False
  then have "rev [1 ..< Suc (length (takeWhile is_space s))] =
      length (takeWhile is_space s) # rev [1 ..< length (takeWhile is_space s)]"
    by (cases "takeWhile is_space s") simp_all
  then show ?thesis using False by (simp add: in_cls_Space)
qed

lemma collapse_Nil: "re_sub [Greedy Space 1] [32] [] = []"
  by simp

lemma collapse_Cons:
  "re_sub [Greedy Space 1] [32] (x # xs) =
     (if is_space x then 32 # re_sub [Greedy Space 1] [32] (dropWhile is_space xs)
      else x # re_sub [Greedy Space 1] [32] xs)"
proof (cases "is_space x")
  case True
  have "drop (Suc (length (takeWhile is_space xs))) (x # xs) = dropWhile is_space xs"
    by (simp add: dropWhile_eq_drop)
  then show ?thesis using True
    by (simp only: re_sub.simps rmatch_spaces) (simp add: m_end_def)
next
  case False
  then show ?thesis by (simp only: re_sub.simps rmatch_spaces) simp
qed

lemma ok_ws_collapse: "ok_ws (re_sub [Greedy Space 1] [32] s)"
proof (induction s rule: length_induct)
  case (1 s)
  show ?case
  proof (cases s)
    case Nil
    then show ?thesis by simp
  next
    case (Cons x xs)
    show ?thesis
    proof (cases "is_space x")
      case True
      let ?r = "dropWhile is_space xs"
      have "length ?r < length s" using Cons by (simp add: length_dropWhile_le le_imp_less_Suc)
      then have ih: "ok_ws (re_sub [Greedy Space 1] [32] ?r)" using 1 by blast
      have e: "re_sub [Greedy Space 1] [32] s = 32 # re_sub [Greedy Space 1] [32] ?r"
        using True Cons by (simp only: collapse_Cons if_True)
      show ?thesis
      proof (cases ?r)
        case Nil
        have "re_sub [Greedy Space 1] [32] ?r = []" unfolding Nil by simp
        then show ?thesis unfolding e by (simp add: is_space_def)
      next
        case r: (Cons y ys)
        then have ny: "\<not> is_space y" by (metis hd_dropWhile list.sel(1) list.distinct(1))
        have "re_sub [Greedy Space 1] [32] ?r = y # re_sub [Greedy Space 1] [32] ys"
          unfolding r using ny by (simp only: collapse_Cons if_False)
        then show ?thesis unfolding e using ih ny by simp
      qed
    next
      case False
      have ih: "ok_ws (re_sub [Greedy Space 1] [32] xs)" using 1 Cons by simp
      have e: "re_sub [Greedy Space 1] [32] s = x # re_sub [Greedy Space 1] [32] xs"
        using False Cons by (simp only: collapse_Cons if_False)
      show ?thesis unfolding e using ih False
        by (cases "re_sub [Greedy Space 1] [32] xs") simp_all
    qed
  qed
qed

lemma ok_ws_fixed: "ok_ws s \<Longrightarrow> re_sub [Greedy Space 1] [32] s = s"
proof (induction s rule: ok_ws.induct)
  case 1
  then show ?case by simp
next
  case (2 x)
  then show ?case by (simp only: collapse_Cons collapse_Nil) (simp split: if_splits)
next
  case (3 x y zs)
  then show ?case by (simp only: collapse_Cons[of x]) (simp split: if_splits)
qed

lemma ok_ws_tl: "ok_ws (x # xs) \<Longrightarrow> ok_ws xs"
  by (cases xs) simp_all

lemma ok_ws_dropWhile: "ok_ws s \<Longrightarrow> ok_ws (dropWhile P s)"
  by (induction s) (auto dest: ok_ws_tl)

lemma ok_ws_take: "ok_ws s \<Longrightarrow> ok_ws (take n s)"
proof (induction s arbitrary: n rule: ok_ws.induct)
  case 1
  then show ?case by simp
next
  case (2 x)
  then show ?case by (cases n) simp_all
next
  case (3 x y zs)
  show ?case
  proof (cases n)
    case 0
    then show ?thesis by simp
  next
    case (Suc m)
    have "ok_ws (take m (y # zs))" using 3 by simp
    then show ?thesis using Suc "3.prems" by (cases m) (simp_all split: if_splits)
  qed
qed

lemma strip_take_drop: "\<exists>n. strip s = take n (dropWhile is_space s)"
proof -
  let ?a = "dropWhile is_space s"
  have "strip s = rev (drop (length (takeWhile is_space (rev ?a))) (rev ?a))"
    by (simp add: strip_def dropWhile_eq_drop)
  also have "\<dots> = take (length ?a - length (takeWhile is_space (rev ?a))) ?a"
    by (simp add: rev_drop)
  finally show ?thesis by blast
qed

lemma ok_ws_strip:
  assumes "ok_ws s"
  shows "ok_ws (strip s)"
proof -
  from strip_take_drop[of s] obtain n where n: "strip s = take n (dropWhile is_space s)" by blast
  show ?thesis unfolding n by (rule ok_ws_take, rule ok_ws_dropWhile, rule assms)
qed

lemma set_strip: "set (strip s) \<subseteq> set s"
proof -
  from strip_take_drop[of s] obtain n where "strip s = take n (dropWhile is_space s)" by blast
  then show ?thesis
    by (metis set_take_subset set_dropWhileD subset_iff)
qed

lemma strip_fixed:
  assumes "s = [] \<or> (\<not> is_space (hd s) \<and> \<not> is_space (last s))"
  shows "strip s = s"
proof (cases "s = []")
  case True
  then show ?thesis by (simp add: strip_def)
next
  case False
  with assms have h: "\<not> is_space (hd s)" and l: "\<not> is_space (last s)" by simp_all
  have a: "dropWhile is_space s = s" using h by (simp add: dropWhile_eq_self_iff)
  have "dropWhile is_space (rev s) = rev s"
    using l False by (simp add: dropWhile_eq_self_iff hd_rev)
  then show ?thesis by (simp add: strip_def a)
qed

lemma strip_ends:
  "strip s = [] \<or> (\<not> is_space (hd (strip s)) \<and> \<not> is_space (last (strip s)))"
proof (cases "strip s = []")
  case True
  then show ?thesis by simp
next
  case False
  let ?a = "dropWhile is_space s"
  let ?b = "dropWhile is_space (rev ?a)"
  have s: "strip s = rev ?b" by (simp add: strip_def)
  have b: "?b \<noteq> []" using False s by simp
  have a: "?a \<noteq> []"
  proof
    assume e: "?a = []"
    have "?b = []" unfolding e by simp
    with b show False by contradiction
  qed
  have hb: "\<not> is_space (hd ?b)" using b by (rule hd_dropWhile)
  have ha: "\<not> is_space (hd ?a)" using a by (rule hd_dropWhile)
  have "rev ?a = takeWhile is_space (rev ?a) @ ?b" by simp
  then have "last (rev ?a) = last ?b" using b by (metis last_appendR)
  then have "last ?b = hd ?a" using a by (simp add: last_rev)
  then have "\<not> is_space (hd (strip s))" using ha b by (simp add: s hd_rev)
  moreover have "\<not> is_space (last (strip s))" using hb b by (simp add: s last_rev)
  ultimately show ?thesis by simp
qed

lemma set_re_sub: "set (re_sub ps r s) \<subseteq> set r \<union> set s"
proof (induction ps r s rule: re_sub.induct)
  case (1 ps r)
  then show ?case by (auto split: option.splits)
next
  case (2 ps r x xs)
  show ?case
  proof (cases "rmatch ps (x # xs)")
    case None
    then show ?thesis using "2.IH"(1) by auto
  next
    case (Some ns)
    show ?thesis
    proof (cases "m_end ns = 0")
      case True
      then show ?thesis using Some "2.IH"(2) by auto
    next
      case False
      have "set (drop (m_end ns) (x # xs)) \<subseteq> set (x # xs)" by (rule set_drop_subset)
      then show ?thesis using Some False "2.IH"(3)[OF Some False] by auto
    qed
  qed
qed

lemma ok_ws_spaces: "ok_ws s \<Longrightarrow> c \<in> set s \<Longrightarrow> is_space c \<Longrightarrow> c = 32"
  by (induction s rule: ok_ws.induct) (auto split: if_splits)

lemma remove_hyphen_break_set: "set (remove_hyphen_break s) \<subseteq> set s"
  by (induction s rule: remove_hyphen_break.induct) auto

lemma remove_hyphen_break_fixed: "10 \<notin> set s \<Longrightarrow> remove_hyphen_break s = s"
  by (induction s rule: remove_hyphen_break.induct) auto

lemma normalize_text_shape:
  "ok_ws (normalize_text s)" "173 \<notin> set (normalize_text s)"
  "normalize_text s = [] \<or>
     (\<not> is_space (hd (normalize_text s)) \<and> \<not> is_space (last (normalize_text s)))"
proof -
  show "ok_ws (normalize_text s)"
    unfolding normalize_text_def by (rule ok_ws_strip, rule ok_ws_collapse)
  show "normalize_text s = [] \<or>
     (\<not> is_space (hd (normalize_text s)) \<and> \<not> is_space (last (normalize_text s)))"
    unfolding normalize_text_def by (rule strip_ends)
  let ?a = "remove_soft_hyphen s"
  let ?b = "remove_hyphen_break ?a"
  let ?c = "newline_to_space ?b"
  let ?d = "re_sub HEADER_STRIP_RE [32] ?c"
  let ?e = "re_sub [Greedy Space 1] [32] ?d"
  have "173 \<notin> set ?a" by (simp add: remove_soft_hyphen_def)
  then have "173 \<notin> set ?b" using remove_hyphen_break_set[of ?a] by blast
  then have "173 \<notin> set ?c" by (auto simp: newline_to_space_def)
  then have "173 \<notin> set ?d" using set_re_sub[of HEADER_STRIP_RE "[32]" ?c] by auto
  then have "173 \<notin> set ?e" using set_re_sub[of "[Greedy Space 1]" "[32]" ?d] by auto
  then show "173 \<notin> set (normalize_text s)"
    unfolding normalize_text_def using set_strip[of ?e] by blast
qed

lemma normalize_text_fixed:
  assumes ok: "ok_ws t" and sh: "173 \<notin> set t"
    and ends: "t = [] \<or> (\<not> is_space (hd t) \<and> \<not> is_space (last t))"
    and hdr: "search HEADER_STRIP_RE t = None"
  shows "normalize_text t = t"
proof -
  have nl: "10 \<notin> set t"
  proof
    assume "10 \<in> set t"
    moreover have "is_space 10" by (simp add: is_space_def)
    ultimately have "(10::nat) = 32" using ok by (rule ok_ws_spaces[rotated])
    then show False by simp
  qed
  have a: "remove_soft_hyphen t = t" using sh by (auto simp: remove_soft_hyphen_def filter_id_conv)
  have b: "remove_hyphen_break t = t" using nl by (rule remove_hyphen_break_fixed)
  have c: "newline_to_space t = t" using nl by (auto simp: newline_to_space_def intro: map_idI)
  have d: "re_sub HEADER_STRIP_RE [32] t = t" using hdr by (rule search_None_sub)
  have e: "re_sub [Greedy Space 1] [32] t = t" using ok by (rule ok_ws_fixed)
  have f: "strip t = t" using ends by (rule strip_fixed)
  show ?thesis by (simp only: normalize_text_def a b c d e f)
qed

lemma normalize_idem:
  "search HEADER_STRIP_RE (normalize_text s) = None \<Longrightarrow>
   normalize_text (normalize_text s) = normalize_text s"
  by (rule normalize_text_fixed[OF normalize_text_shape])

lemma normalize_empty: "normalize_text [] = []"
  by code_simp

section \<open>The end-to-end scenario\<close>

text \<open>
  C2. On the two-page document (a size-20 title, the size-14 heading "1.2 Scope" and
  the size-11 paragraph start "1. This guide applies to..." on page 1; the size-11
  continuation "to all significant institutions." and the paragraph start
  "2. Further, ..." on page 2) the extractor returns exactly two records: paragraph 1
  under the title and the subsection, its text running over the page boundary, on page
  1; paragraph 2 under the same headings, on page 2.
\<close>

theorem two_page_scenario:
  "extract_json two_page_doc 1 2 = Inr
     [\<lparr>r_title = u ''Overarching principles'', r_section = u ''Overarching principles'',
       r_subsection = u ''1.2 Scope'', r_paragraph_number = u ''1'', r_page = 1,
       r_text = u ''This guide applies to... to all significant institutions.''\<rparr>,
      \<lparr>r_title = u ''Overarching principles'', r_section = u ''Overarching principles'',
       r_subsection = u ''1.2 Scope'', r_paragraph_number = u ''2'', r_page = 2,
       r_text = u ''Further, ...''\<rparr>]"
  by code_simp

section \<open>Headings and the paragraph in flight\<close>

text \<open>
  C1 asks that a heading flushes the paragraph in flight. The single pass does not: on
  a page with the heading "1.1 Scope", the paragraph start "1. First", the heading
  "1.2 Purpose" and then the plain block "stray text", the text after the second heading
  is appended to paragraph 1, which was opened under the first heading.
\<close>

theorem heading_leaves_paragraph_in_flight:
  "extract_json stray_after_heading_doc 1 1 = Inr
     [\<lparr>r_title = NA, r_section = NA, r_subsection = u ''1.1 Scope'',
       r_paragraph_number = u ''1'', r_page = 1, r_text = u ''First stray text''\<rparr>]"
  by code_simp

section \<open>The three passes against the single pass\<close>

text \<open>
  C5. The variant in three passes and the single pass are not equivalent: on a page
  whose paragraph start "1. First" comes before the heading "1.2 Scope", the three
  passes have already seen the heading when they open the paragraph and file it under
  "1.2 Scope", the single pass files it under no subsection; the outputs differ.
\<close>

theorem multi_pass_differs:
  "map_sum id (map r_subsection) (extract_json_v2 para_before_heading_doc 1 1)
     = Inr [u ''1.2 Scope''] \<and>
   map_sum id (map r_subsection) (extract_json para_before_heading_doc 1 1) = Inr [NA] \<and>
   extract_json_v2 para_before_heading_doc 1 1 \<noteq> extract_json para_before_heading_doc 1 1"
  by code_simp

section \<open>The text normalizer\<close>

text \<open>
  C3 as stated fails: the normalizer does not return "model-based" for a hyphen followed
  by a line break.
\<close>

theorem hyphen_not_retained:
  "normalize_text hyphen_break_input \<noteq> u ''model-based''"
  by code_simp

text \<open>
  C3, amended. For "model-" followed by a line break and "based" the normalizer returns
  "modelbased": the hyphen and the line break are both removed and no space is put
  in their place.
\<close>

theorem hyphen_break_removed:
  "normalize_text hyphen_break_input = u ''modelbased''"
  by code_simp

text \<open>
  C4 as stated fails: a header whose words are two spaces apart survives the first
  normalization, which collapses the spaces only after the header has been looked for,
  and is stripped by the second.
\<close>

theorem normalize_not_idempotent:
  "normalize_text (normalize_text wide_header_input) \<noteq> normalize_text wide_header_input"
  by code_simp

text \<open>
  C4, amended. The normalizer is defined on every string (its substitution loop
  terminates), returns the empty string for the empty string, and applying it twice
  gives the same result as once whenever its result contains no match of the
  running-header pattern.
\<close>

theorem normalize_idempotent_without_header:
  assumes "search HEADER_STRIP_RE (normalize_text s) = None"
  shows "normalize_text (normalize_text s) = normalize_text s \<and> normalize_text [] = []"
proof -
  have "normalize_text (normalize_text s) = normalize_text s"
    using assms by (rule normalize_idem)
  then show ?thesis by (simp add: normalize_empty)
qed

theorem normalize_idempotent_witness:
  "normalize_text (normalize_text (u ''  two   words ''))
     = normalize_text (u ''  two   words '') \<and> normalize_text [] = []"
proof -
  have h: "search HEADER_STRIP_RE (normalize_text (u ''  two   words '')) = None"
    by code_simp
  show ?thesis by (rule normalize_idempotent_without_header[OF h])
qed

section \<open>The title rule\<close>

text \<open>
  C6. A block of size at least 18 whose text is shorter than 200 characters and is
  not "contents" in any capitalisation sets the title to its text and resets section,
  subsection and chapter id; the paragraph in flight, its buffer and the records
  emitted so far are left as they are. After it, section and subsection stay unset
  over every run of later blocks on which no heading rule fires.
\<close>

theorem title_rule:
  assumes "max_size b \<ge> 18" and "length (b_text b) < 200"
    and "lower (b_text b) \<noteq> u ''contents''"
    and "list_all (\<lambda>pb. \<not> is_heading (snd pb)) later"
  shows "process_block p st b =
           st\<lparr>cur_title := Some (b_text b), cur_section := NA, cur_subsection := NA,
              cur_chapter_id := None\<rparr> \<and>
         cur_para (process_block p st b) = cur_para st \<and>
         buf (process_block p st b) = buf st \<and>
         results (process_block p st b) = results st \<and>
         cur_section (run (process_block p st b) later) = NA \<and>
         cur_subsection (run (process_block p st b) later) = NA"
proof -
  have t: "is_title b" using assms(1-3) by (simp add: is_title_def)
  have step: "process_block p st b =
      st\<lparr>cur_title := Some (b_text b), cur_section := NA, cur_subsection := NA,
         cur_chapter_id := None\<rparr>"
    by (rule title_step[OF t])
  have "cur_section (process_block p st b) = NA" "cur_subsection (process_block p st b) = NA"
    by (simp_all add: step)
  with assms(4) have "cur_section (run (process_block p st b) later) = NA \<and>
      cur_subsection (run (process_block p st b) later) = NA"
    by (rule no_heading_run)
  moreover have "cur_para (process_block p st b) = cur_para st"
    "buf (process_block p st b) = buf st" "results (process_block p st b) = results st"
    by (simp_all add: step)
  ultimately show ?thesis using step by simp
qed

theorem title_rule_witness:
  "process_block 6 in_flight_state title_block =
     in_flight_state\<lparr>cur_title := Some (b_text title_block), cur_section := NA,
       cur_subsection := NA, cur_chapter_id := None\<rparr> \<and>
   cur_para (process_block 6 in_flight_state title_block) = cur_para in_flight_state \<and>
   buf (process_block 6 in_flight_state title_block) = buf in_flight_state \<and>
   results (process_block 6 in_flight_state title_block) = results in_flight_state \<and>
   cur_section (run (process_block 6 in_flight_state title_block) [(6, body_block)]) = NA \<and>
   cur_subsection (run (process_block 6 in_flight_state title_block) [(6, body_block)]) = NA"
proof -
  have h1: "max_size title_block \<ge> 18" by (simp add: title_block_def)
  have h2: "length (b_text title_block) < 200" by (simp add: title_block_def u_def)
  have h3: "lower (b_text title_block) \<noteq> u ''contents''" by code_simp
  have h4: "list_all (\<lambda>pb. \<not> is_heading (snd pb)) [(6, body_block)]"
    by (simp add: is_heading_def body_block_def)
  show ?thesis by (rule title_rule[OF h1 h2 h3 h4])
qed

section \<open>Footnote-sized blocks\<close>

text \<open>
  C7. A block whose size is below 8.5 leaves the whole state of the classifier as it
  is: the heading context, the paragraph in flight and its buffer. So whatever the
  run, the extractor returns what it would return with that block taken out of the
  blocks it processes, and no character of the block reaches a record.
\<close>

theorem footnote_block_ignored:
  assumes "max_size b < 8.5"
    and "processed_blocks doc s e = Inr (before @ (p, b) # after)"
  shows "process_block p st b = st \<and>
         extract_json doc s e = Inr (results (flush (run init_state (before @ after))))"
proof -
  have step: "process_block p st' b = st'" for st'
    using assms(1) by (rule footnote_step)
  have "run init_state (before @ (p, b) # after) = run init_state (before @ after)"
    by (simp add: run_def step)
  then show ?thesis using step by (simp add: extract_json_run assms(2))
qed

theorem footnote_block_ignored_witness:
  "process_block 1 in_flight_state footnote_block = in_flight_state \<and>
   extract_json footnote_doc 1 1 =
     Inr (results (flush (run init_state
       ([(1, \<lparr>idx = 0, b_text = u ''1. First'', max_size = 11\<rparr>),
         (1, \<lparr>idx = 1, b_text = u ''more'', max_size = 11\<rparr>)] @
        [(1, \<lparr>idx = 3, b_text = u ''rest'', max_size = 11\<rparr>)]))))"
proof -
  have h1: "max_size footnote_block < 8.5" by (simp add: footnote_block_def)
  have h2: "processed_blocks footnote_doc 1 1 = Inr
      ([(1, \<lparr>idx = 0, b_text = u ''1. First'', max_size = 11\<rparr>),
        (1, \<lparr>idx = 1, b_text = u ''more'', max_size = 11\<rparr>)] @
       (1, footnote_block) # [(1, \<lparr>idx = 3, b_text = u ''rest'', max_size = 11\<rparr>)])"
    by code_simp
  show ?thesis by (rule footnote_block_ignored[OF h1 h2])
qed

text \<open>The sandwich of the specification: the paragraph stays open over the footnote.\<close>

lemma footnote_sandwich:
  "extract_json footnote_doc 1 1 = Inr
     [\<lparr>r_title = NA, r_section = NA, r_subsection = NA, r_paragraph_number = u ''1'',
       r_page = 1, r_text = u ''First more rest''\<rparr>]"
  by code_simp

section \<open>The page-index resolver\<close>




section \<open>Pages with the same printed number\<close>

text \<open>
  C9. When page \<open>i\<close> and a later page \<open>j\<close> resolve to the same printed number, the index,
  once built, maps that number to the last page that resolves to it, which is \<open>j\<close> or a
  page after it, and maps no printed number to \<open>i\<close>; and the blocks of page \<open>i\<close> have no
  effect on the output: with any other page of the same printed number in its place the
  extractor returns the same.
\<close>

theorem last_page_wins:
  assumes "i < j" and "j < length doc"
    and "get_printed_page_number i (doc ! i) = get_printed_page_number j (doc ! j)"
    and "get_printed_page_number i pg' = get_printed_page_number i (doc ! i)"
  shows "(case printed_to_index doc of
            Inl err \<Rightarrow> True
          | Inr index \<Rightarrow>
              (\<exists>n k. get_printed_page_number i (doc ! i) = Inr n \<and> index n = Some k \<and>
                     j \<le> k \<and> last_page_with doc n k) \<and>
              (\<forall>m. index m \<noteq> Some i)) \<and>
         extract_json (doc[i := pg']) s e = extract_json doc s e"
proof -
  have "(\<exists>n k. get_printed_page_number i (doc ! i) = Inr n \<and> index n = Some k \<and>
            j \<le> k \<and> last_page_with doc n k) \<and> (\<forall>m. index m \<noteq> Some i)"
    if ix: "printed_to_index doc = Inr index" for index
  proof -
    from printed_to_index_dom[OF ix assms(2)] obtain n k where
      k: "get_printed_page_number j (doc ! j) = Inr n" "index n = Some k" "j \<le> k"
      by blast
    then have "last_page_with doc n k" using printed_to_index_last[OF ix] by simp
    with k have "\<exists>n k. get_printed_page_number i (doc ! i) = Inr n \<and> index n = Some k \<and>
        j \<le> k \<and> last_page_with doc n k"
      unfolding assms(3) by blast
    moreover have "index m \<noteq> Some i" for m
      by (rule shadowed_page_not_indexed[OF ix assms(1-3)])
    ultimately show ?thesis by blast
  qed
  moreover have "extract_json (doc[i := pg']) s e = extract_json doc s e"
    by (rule shadowed_page_ignored[OF assms])
  ultimately show ?thesis by (simp split: sum.splits)
qed

theorem last_page_wins_witness:
  "(case printed_to_index shadow_doc of Inl err \<Rightarrow> False | Inr index \<Rightarrow> index 2 = Some 1) \<and>
   extract_json (shadow_doc[0 := other_page]) 1 5 = extract_json shadow_doc 1 5"
proof -
  have h1: "(0::nat) < 1" by simp
  have h2: "1 < length shadow_doc" by (simp add: shadow_doc_def)
  have h3: "get_printed_page_number 0 (shadow_doc ! 0) = get_printed_page_number 1 (shadow_doc ! 1)"
    by code_simp
  have h4: "get_printed_page_number 0 other_page = get_printed_page_number 0 (shadow_doc ! 0)"
    by code_simp
  have n: "get_printed_page_number 0 (shadow_doc ! 0) = Inr 2" by code_simp
  have "case printed_to_index shadow_doc of Inl err \<Rightarrow> False | Inr index \<Rightarrow> True"
    by code_simp
  then obtain index where ix: "printed_to_index shadow_doc = Inr index"
    by (cases "printed_to_index shadow_doc") simp_all
  from last_page_wins[OF h1 h2 h3 h4, of 1 5] obtain k where
    k: "index 2 = Some k" "1 \<le> k" "last_page_with shadow_doc 2 k"
    and e: "extract_json (shadow_doc[0 := other_page]) 1 5 = extract_json shadow_doc 1 5"
    unfolding ix n by auto
  from k(3) have "k < 2" by (simp add: last_page_with_def shadow_doc_def)
  with k(2) have "k = 1" by simp
  with k(1) e show ?thesis by (simp add: ix)
qed

section \<open>Dotted labels below the heading size\<close>

text \<open>
  C10. A block of size at least 8.5 and below 12.5 whose text starts with digits, a
  period and a digit (such as "1.2 Scope") does not match the paragraph-start pattern,
  which wants whitespace after the period. The block opens no record and leaves the
  heading context as it is: its text is appended to the buffer when a paragraph is in
  flight, and the state is unchanged otherwise.
\<close>

theorem dotted_label_is_continuation:
  assumes "8.5 \<le> max_size b" and "max_size b < 12.5"
    and "b_text b = ds @ 46 # d # rest"
    and "ds \<noteq> []" and "list_all is_digit ds" and "is_digit d"
  shows "rmatch PARA_START_RE (b_text b) = None \<and>
         process_block p st b =
           (if cur_para st \<noteq> None then st\<lparr>buf := buf st @ [b_text b]\<rparr> else st)"
proof -
  have nomatch: "rmatch PARA_START_RE (b_text b) = None"
    unfolding assms(3) by (rule para_start_dotted_label[OF assms(4-6)])
  obtain x xs where ds: "ds = x # xs" using assms(4) by (cases ds) auto
  then have x: "x \<noteq> 84" "x \<noteq> 82" using assms(5) not_digit(3,4) by auto
  have "\<not> looks_like_table_heading (b_text b)"
    unfolding assms(3) ds using x
    by (auto simp: looks_like_table_heading_def TABLE_HEADING_PREFIXES_def startswith_def u_def)
  moreover have "\<not> is_title b" using assms(2) by (simp add: is_title_def)
  ultimately show ?thesis using assms(1,2) nomatch
    by (simp add: process_block_def para_or_continuation_def)
qed

theorem dotted_label_witness:
  "rmatch PARA_START_RE (b_text label_block) = None \<and>
   process_block 5 in_flight_state label_block =
     (if cur_para in_flight_state \<noteq> None
      then in_flight_state\<lparr>buf := buf in_flight_state @ [b_text label_block]\<rparr>
      else in_flight_state)"
proof -
  have h1: "8.5 \<le> max_size label_block" by (simp add: label_block_def)
  have h2: "max_size label_block < 12.5" by (simp add: label_block_def)
  have h3: "b_text label_block = u ''1'' @ 46 # 50 # u '' Scope''" by code_simp
  have h4: "u ''1'' \<noteq> []" by (simp add: u_def)
  have h5: "list_all is_digit (u ''1'')" by code_simp
  have h6: "is_digit 50" by code_simp
  show ?thesis by (rule dotted_label_is_continuation[OF h1 h2 h3 h4 h5 h6])
qed

end
